theory Spec2Isabelle
  imports Complex_Main "HOL-Library.Log_Nat"
begin

section \<open>Numbers\<close>

text \<open>
  A JavaScript number is a binary64 value. It is modelled as the \<^typ>\<open>real\<close> it
  denotes, and every arithmetic operation of the source rounds its exact result to the
  nearest binary64 value, ties to the even significand: 53 bits of significand, the
  exponent of the last place not below -1074 (so subnormal results are rounded as the
  format does). Results beyond the finite range, \<open>NaN\<close> and division by zero are not
  modelled; clock readings in milliseconds and the durations of the scenes do not reach
  them. \<open>Math.min\<close> and \<open>Math.max\<close> are exact.
\<close>

text \<open>The nearest integer, a tie going to the even one.\<close>

definition round_even :: "real \<Rightarrow> int" where
  "round_even y =
     (let f = \<lfloor>y\<rfloor>; r = y - of_int f
      in if r < 1 / 2 then f else if 1 / 2 < r then f + 1 else if even f then f else f + 1)"

text \<open>
  The binary exponent: \<open>2 powi expo x \<le> \<bar>x\<bar> < 2 powi (expo x + 1)\<close> from the least
  subnormal on, and -1075 below it.
\<close>

definition expo :: "real \<Rightarrow> int" where
  "expo x = bitlen \<lfloor>\<bar>x\<bar> * 2 ^ 1074\<rfloor> - 1075"

text \<open>Rounding to binary64.\<close>

definition fl :: "real \<Rightarrow> real" where
  "fl x =
     (let q = max (expo x - 52) (- 1074)
      in sgn x * of_int (round_even (\<bar>x\<bar> / 2 powi q)) * 2 powi q)"

text \<open>The operators \<open>+\<close>, \<open>-\<close>, \<open>*\<close> and \<open>/\<close> of the source.\<close>

definition add64 :: "real \<Rightarrow> real \<Rightarrow> real" where
  "add64 a b = fl (a + b)"

definition sub64 :: "real \<Rightarrow> real \<Rightarrow> real" where
  "sub64 a b = fl (a - b)"

definition mul64 :: "real \<Rightarrow> real \<Rightarrow> real" where
  "mul64 a b = fl (a * b)"

definition div64 :: "real \<Rightarrow> real \<Rightarrow> real" where
  "div64 a b = fl (a / b)"

section \<open>The scene list of \<open>ScenePlayer.tsx\<close>\<close>

text \<open>
  Array indices and the run counter are \<^typ>\<open>nat\<close>. A \<open>SceneDefinition\<close> keeps the
  fields the sequencer reads; \<open>caption\<close> and \<open>render\<close> only feed the JSX and are left
  out.
\<close>

record SceneDefinition =
  scene_id :: string
  title :: string
  duration :: real

text \<open>\<open>const clamp = (value, min = 0, max = 1) => Math.min(max, Math.max(min, value))\<close>\<close>

definition clamp :: "real \<Rightarrow> real \<Rightarrow> real \<Rightarrow> real" where
  "clamp v lo hi = min hi (max lo v)"

definition SCENES :: "SceneDefinition list" where
  "SCENES =
    [\<lparr>scene_id = ''wake'', title = ''First Light'', duration = 6500\<rparr>,
     \<lparr>scene_id = ''panorama'', title = ''Penthouse Panorama'', duration = 7200\<rparr>,
     \<lparr>scene_id = ''portfolio'', title = ''Assets in Motion'', duration = 6200\<rparr>,
     \<lparr>scene_id = ''balcony'', title = ''Morning Air'', duration = 7000\<rparr>,
     \<lparr>scene_id = ''heli'', title = ''Helipad Arrival'', duration = 7200\<rparr>]"

text \<open>\<open>SCENES.reduce((accumulator, scene) => accumulator + scene.duration, 0)\<close>\<close>

definition TOTAL_DURATION :: real where
  "TOTAL_DURATION = foldl (\<lambda>accumulator scene. add64 accumulator (duration scene)) 0 SCENES"

text \<open>
  \<open>SCENES[i]\<close>: \<open>undefined\<close> out of range, which is \<open>None\<close> here; reading a field of it
  is the \<open>TypeError\<close> of the functions below.
\<close>

definition scene_at :: "nat \<Rightarrow> SceneDefinition option" where
  "scene_at i = (if i < length SCENES then Some (SCENES ! i) else None)"

section \<open>Playback state\<close>

text \<open>The four \<open>useState\<close> cells of the component.\<close>

record playback =
  sceneIndex :: nat
  sceneProgress :: real
  runId :: nat
  isComplete :: bool

definition initial :: playback where
  "initial = \<lparr>sceneIndex = 0, sceneProgress = 0, runId = 0, isComplete = False\<rparr>"

definition handleReplay :: "playback \<Rightarrow> playback" where
  "handleReplay s =
     s\<lparr>sceneIndex := 0, sceneProgress := 0, runId := runId s + 1, isComplete := False\<rparr>"

text \<open>\<open>SCENES.slice(0, sceneIndex).reduce(...)\<close>\<close>

definition elapsedBeforeScene :: "playback \<Rightarrow> real" where
  "elapsedBeforeScene s =
     foldl (\<lambda>accumulator scene. add64 accumulator (duration scene)) 0
       (take (sceneIndex s) SCENES)"

definition timelineProgress :: "playback \<Rightarrow> real option" where
  "timelineProgress s =
     (if isComplete s then Some 1
      else case scene_at (sceneIndex s) of
             None \<Rightarrow> None
           | Some scene \<Rightarrow>
               Some (div64 (add64 (elapsedBeforeScene s) (mul64 (sceneProgress s) (duration scene)))
                           TOTAL_DURATION))"

text \<open>
  The timeline progress in the words of the specification: the durations of the scenes
  before the active one, plus the active scene's share, over the sum of all durations,
  and 1 when the run is complete. The two sums are those of the list; the product, the
  sum of the two terms and the quotient are operations on numbers of the program.
\<close>

definition spec_timeline :: "playback \<Rightarrow> real" where
  "spec_timeline s =
     (if isComplete s then 1
      else div64 (add64 (sum_list (map duration (take (sceneIndex s) SCENES)))
                        (mul64 (sceneProgress s) (duration (SCENES ! sceneIndex s))))
                 (sum_list (map duration SCENES)))"

section \<open>The timing effect\<close>

text \<open>
  One run of the \<open>useEffect\<close> body creates a closure \<open>step\<close> over the constants
  \<open>scene\<close>, \<open>sceneIndex\<close> (of the render the effect belongs to) and \<open>start\<close>.
  \<open>e_deps\<close> is the dependency array \<open>[sceneIndex, runId]\<close> of that render, which
  React keeps with the effect. \<open>e_id\<close> numbers the runs of the effect body, so that
  the local variable \<open>animationFrame\<close> a callback writes can be told from that of a
  later run.
\<close>

record effect =
  e_id :: nat
  e_deps :: "nat \<times> nat"
  e_scene :: "SceneDefinition option"
  e_sceneIndex :: nat
  e_start :: real

text \<open>
  \<open>step(timestamp)\<close>: the state setters applied in order to the playback state, and
  whether the callback ends in \<open>requestAnimationFrame(step)\<close> (\<open>True\<close>) or in a
  \<open>return\<close> (\<open>False\<close>). \<open>None\<close> is the \<open>TypeError\<close> of \<open>scene.duration\<close> on an
  undefined scene, raised before any setter runs.
\<close>

definition step :: "effect \<Rightarrow> real \<Rightarrow> playback \<Rightarrow> (playback \<times> bool) option" where
  "step e timestamp s =
     (case e_scene e of
        None \<Rightarrow> None
      | Some scene \<Rightarrow>
          let elapsed = sub64 timestamp (e_start e);
              progress = clamp (div64 elapsed (duration scene)) 0 1;
              s1 = s\<lparr>sceneProgress := progress\<rparr>
          in if progress \<ge> 1 then
               if e_sceneIndex e \<ge> length SCENES - 1 then
                 Some (s1\<lparr>sceneProgress := 1, isComplete := True\<rparr>, False)
               else
                 Some (s1\<lparr>sceneProgress := 0,
                          sceneIndex := min (sceneIndex s1 + 1) (length SCENES - 1)\<rparr>, False)
             else Some (s1, True))"

section \<open>The component and its host\<close>

text \<open>
  The host keeps the pending \<open>requestAnimationFrame\<close> callbacks by handle; every
  callback is the \<open>step\<close> of some effect run. \<open>live\<close> is the effect run whose cleanup
  has not run yet and \<open>animationFrame\<close> its local variable.
\<close>

record machine =
  st :: playback
  live :: effect
  animationFrame :: nat
  frames :: "(nat \<times> effect) list"
  nextHandle :: nat
  effectRuns :: nat

definition requestAnimationFrame :: "effect \<Rightarrow> machine \<Rightarrow> machine" where
  "requestAnimationFrame cb m =
     m\<lparr>frames := frames m @ [(nextHandle m, cb)], nextHandle := nextHandle m + 1\<rparr>"

definition cancelAnimationFrame :: "nat \<Rightarrow> machine \<Rightarrow> machine" where
  "cancelAnimationFrame h m = m\<lparr>frames := filter (\<lambda>(h', cb). h' \<noteq> h) (frames m)\<rparr>"

text \<open>
  The effect body, run after a render whose \<open>[sceneIndex, runId]\<close> changed (and at
  mount); \<open>now\<close> is what \<open>performance.now()\<close> returns at that moment.
\<close>

definition useEffect_setup :: "real \<Rightarrow> machine \<Rightarrow> machine" where
  "useEffect_setup now m =
     (let e = \<lparr>e_id = effectRuns m, e_deps = (sceneIndex (st m), runId (st m)),
                e_scene = scene_at (sceneIndex (st m)),
                e_sceneIndex = sceneIndex (st m), e_start = now\<rparr>
      in (requestAnimationFrame e m)
           \<lparr>live := e, animationFrame := nextHandle m, effectRuns := effectRuns m + 1\<rparr>)"

text \<open>\<open>return () => cancelAnimationFrame(animationFrame)\<close>\<close>

definition useEffect_cleanup :: "machine \<Rightarrow> machine" where
  "useEffect_cleanup m = cancelAnimationFrame (animationFrame m) m"

text \<open>
  A render with the new state: the effect is cleaned up and run again exactly when the
  dependency array \<open>[sceneIndex, runId]\<close> differs from the one kept with the effect.
  The setter calls of one callback or event handler are batched into one render, and the
  cleanup and the effect body of that render run before the host delivers anything else.
\<close>

definition commit :: "playback \<Rightarrow> real \<Rightarrow> machine \<Rightarrow> machine" where
  "commit s' now m =
     (if (sceneIndex s', runId s') = e_deps (live m) then m\<lparr>st := s'\<rparr>
      else useEffect_setup now (useEffect_cleanup (m\<lparr>st := s'\<rparr>)))"

text \<open>
  Mounting: the first render shows the initial state and the effect body runs for the
  first time. No effect is live before that; the \<open>live\<close> and \<open>animationFrame\<close>
  given here are placeholders the setup overwrites. Handles are issued from 1.
\<close>

definition mount :: "real \<Rightarrow> machine" where
  "mount now =
     useEffect_setup now
       \<lparr>st = initial,
        live = \<lparr>e_id = 0, e_deps = (0, 0), e_scene = None, e_sceneIndex = 0, e_start = 0\<rparr>,
        animationFrame = 0, frames = [], nextHandle = 1, effectRuns = 1\<rparr>"

text \<open>
  The host runs the callback with handle \<open>h\<close> at \<open>timestamp\<close>; a handle that is not
  pending (never issued, already run, or cancelled) runs nothing. A pending callback is
  taken off the host's list and run: a \<open>step\<close> that ends in
  \<open>animationFrame = requestAnimationFrame(step)\<close> writes the variable of its own
  effect run, which is the machine's \<open>animationFrame\<close> when that run is the live one
  (the variable of an earlier run is never read again after its cleanup). Then the
  component renders. \<open>now\<close> is the clock reading of the effect body, should that
  render run it.
\<close>

definition fire :: "nat \<Rightarrow> real \<Rightarrow> real \<Rightarrow> machine \<Rightarrow> machine" where
  "fire h timestamp now m =
     (case map_of (frames m) h of
        None \<Rightarrow> m
      | Some e \<Rightarrow>
          let m1 = cancelAnimationFrame h m in
          (case step e timestamp (st m1) of
             None \<Rightarrow> m1
           | Some (s', again) \<Rightarrow>
               let m2 = (if again then
                           if e_id e = e_id (live m1)
                           then (requestAnimationFrame e m1)\<lparr>animationFrame := nextHandle m1\<rparr>
                           else requestAnimationFrame e m1
                         else m1)
               in commit s' now m2))"

definition replay :: "real \<Rightarrow> machine \<Rightarrow> machine" where
  "replay now m = commit (handleReplay (st m)) now m"

section \<open>The rendered output\<close>

text \<open>
  The parts of the JSX that depend on the state: per scene its opacity and the progress
  handed to its \<open>render\<close>, the net worth figure
  \<open>186000000 + Math.round(timelineProgress * 8000000)\<close> (\<open>Math.round\<close> rounds
  halves up), the scene label, the width of the progress bar in percent, and whether the
  replay button is in the output. \<open>None\<close> is the \<open>TypeError\<close> of a render whose
  \<open>sceneIndex\<close> is out of range.
\<close>

record view =
  layers :: "(real \<times> real) list"
  netWorth :: int
  sceneNumber :: nat
  sceneTitle :: string
  barWidth :: real
  replayButton :: bool

definition render :: "playback \<Rightarrow> view option" where
  "render s =
     (case scene_at (sceneIndex s) of
        None \<Rightarrow> None
      | Some activeScene \<Rightarrow>
          (case timelineProgress s of
             None \<Rightarrow> None
           | Some tp \<Rightarrow>
               Some \<lparr>layers = map (\<lambda>index.
                                 (if index = sceneIndex s then 1 else 0,
                                  if index < sceneIndex s then 1
                                  else if index = sceneIndex s then sceneProgress s else 0))
                               [0..<length SCENES],
                     netWorth = 186000000 + \<lfloor>mul64 tp 8000000 + 1 / 2\<rfloor>,
                     sceneNumber = sceneIndex s + 1,
                     sceneTitle = title activeScene,
                     barWidth = mul64 tp 100,
                     replayButton = isComplete s\<rparr>))"

text \<open>A click where the replay button would be: \<open>onClick={handleReplay}\<close> if it is rendered.\<close>

definition click :: "real \<Rightarrow> machine \<Rightarrow> machine" where
  "click now m =
     (case render (st m) of
        None \<Rightarrow> m
      | Some v \<Rightarrow> if replayButton v then replay now m else m)"

section \<open>Runs\<close>

datatype event = Frame nat real real | Replay real | Click real

fun apply_event :: "event \<Rightarrow> machine \<Rightarrow> machine" where
  "apply_event (Frame h timestamp now) m = fire h timestamp now m"
| "apply_event (Replay now) m = replay now m"
| "apply_event (Click now) m = click now m"

text \<open>The machines after each event of a list, in order.\<close>

fun trace :: "event list \<Rightarrow> machine \<Rightarrow> machine list" where
  "trace [] m = []"
| "trace (ev # evs) m = apply_event ev m # trace evs (apply_event ev m)"

fun is_Frame :: "event \<Rightarrow> bool" where
  "is_Frame (Frame h timestamp now) = True"
| "is_Frame _ = False"

fun timestamps :: "event list \<Rightarrow> real list" where
  "timestamps [] = []"
| "timestamps (Frame h timestamp now # evs) = timestamp # timestamps evs"
| "timestamps (_ # evs) = timestamps evs"

text \<open>
  The machines the component can be in: mounted at some clock reading, then any events.
  \<open>Replay\<close> calls \<open>handleReplay\<close> in whatever state the machine is, \<open>Click\<close> only
  through the rendered button.
\<close>

inductive reachable :: "machine \<Rightarrow> bool" where
  reachable_mount: "reachable (mount now)"
| reachable_event: "reachable m \<Longrightarrow> reachable (apply_event ev m)"

text \<open>The active scene index before and after each event of a run.\<close>

definition indices :: "event list \<Rightarrow> machine \<Rightarrow> nat list" where
  "indices evs m = map (\<lambda>m'. sceneIndex (st m')) (m # trace evs m)"

text \<open>The timeline progress before and after each event of a run.\<close>

definition timelines :: "event list \<Rightarrow> machine \<Rightarrow> real option list" where
  "timelines evs m = map (\<lambda>m'. timelineProgress (st m')) (m # trace evs m)"

text \<open>The machine after all events of a list.\<close>

definition run :: "event list \<Rightarrow> machine \<Rightarrow> machine" where
  "run evs m = foldl (\<lambda>m' ev. apply_event ev m') m evs"

text \<open>
  The scenario of a whole run on a simulated clock: the component mounts at time 0, the
  callbacks come at 0, 3250 and at the ends of the five scenes, and the clock read by the
  effect body after a transition is the timestamp of the callback that made it. Handles
  are issued in order from 1.
\<close>

definition scenario_events :: "event list" where
  "scenario_events =
     [Frame 1 0 0, Frame 2 3250 3250, Frame 3 6500 6500, Frame 4 13700 13700,
      Frame 5 19900 19900, Frame 6 26900 26900, Frame 7 34100 34100]"


section \<open>Invariant of the reachable machines\<close>

text \<open>
  The index is in range and the progress in [0,1]; a complete run sits on the last scene
  at progress 1 with no callback pending; a running one is below 1 and its only pending
  callback is the \<open>step\<close> of the live effect, under the handle in \<open>animationFrame\<close>;
  the live effect belongs to the current scene and dependency array.
\<close>

definition wf_machine :: "machine \<Rightarrow> bool" where
  "wf_machine m \<longleftrightarrow>
     sceneIndex (st m) < length SCENES
     \<and> 0 \<le> sceneProgress (st m) \<and> sceneProgress (st m) \<le> 1
     \<and> (isComplete (st m) \<longrightarrow>
          sceneIndex (st m) = length SCENES - 1 \<and> sceneProgress (st m) = 1 \<and> frames m = [])
     \<and> (\<not> isComplete (st m) \<longrightarrow>
          sceneProgress (st m) < 1 \<and> frames m = [(animationFrame m, live m)])
     \<and> e_scene (live m) = scene_at (sceneIndex (st m))
     \<and> e_sceneIndex (live m) = sceneIndex (st m)
     \<and> e_deps (live m) = (sceneIndex (st m), runId (st m))
     \<and> animationFrame m < nextHandle m"

text \<open>What the live effect's \<open>step\<close> computes as \<open>progress\<close> at a timestamp.\<close>

definition progress_at :: "machine \<Rightarrow> real \<Rightarrow> real" where
  "progress_at m timestamp =
     clamp (div64 (sub64 timestamp (e_start (live m))) (duration (SCENES ! sceneIndex (st m))))
       0 1"

text \<open>
  The published progress is not ahead of what the live effect's \<open>step\<close> would compute
  at time \<open>t\<close>: the state of a running scene whose callbacks so far came no later than
  \<open>t\<close>.
\<close>

definition in_step :: "machine \<Rightarrow> real \<Rightarrow> bool" where
  "in_step m t \<longleftrightarrow> isComplete (st m) \<or> sceneProgress (st m) \<le> progress_at m t"

section \<open>Rounding\<close>

text \<open>
  Rounding is monotone and leaves every value of the format unchanged, the integers below
  \<open>2 ^ 53\<close> among them; where the exponent of a number is known, its rounding is that of
  its significand.
\<close>

lemma round_even_of_int: "round_even (of_int n) = n"
  by (simp add: round_even_def)

lemma round_even_range: "\<lfloor>y\<rfloor> \<le> round_even y \<and> round_even y \<le> \<lfloor>y\<rfloor> + 1"
  by (simp add: round_even_def Let_def)

lemma round_even_mono:
  assumes "y \<le> z"
  shows "round_even y \<le> round_even z"
proof (cases "\<lfloor>y\<rfloor> = \<lfloor>z\<rfloor>")
  case True
  then show ?thesis using assms by (auto simp add: round_even_def Let_def)
next
  case False
  then have "\<lfloor>y\<rfloor> + 1 \<le> \<lfloor>z\<rfloor>"
    using floor_mono [OF assms] by linarith
  then show ?thesis
    using round_even_range [of y] round_even_range [of z] by linarith
qed

lemma floor_bitlen_upper:
  assumes "0 \<le> (y::real)"
  shows "y < 2 powi (bitlen \<lfloor>y\<rfloor>)"
proof -
  let ?n = "\<lfloor>y\<rfloor>"
  have "bitlen ?n \<le> bitlen ?n" by simp
  then have "?n < 2 ^ nat (bitlen ?n)"
    unfolding bitlen_le_iff_power [of ?n "bitlen ?n"] by simp
  then have "?n + 1 \<le> 2 ^ nat (bitlen ?n)" by simp
  then have "real_of_int (?n + 1) \<le> real_of_int (2 ^ nat (bitlen ?n))"
    by (rule of_int_le_iff [THEN iffD2])
  moreover have "y < real_of_int (?n + 1)"
    by linarith
  moreover have "real_of_int (2 ^ nat (bitlen ?n)) = 2 ^ nat (bitlen ?n)"
    by simp
  ultimately have "y < 2 ^ nat (bitlen ?n)" by linarith
  then show ?thesis
    using bitlen_nonneg [of ?n] by (simp add: power_int_nonneg_exp)
qed

lemma floor_bitlen_lower:
  assumes "1 \<le> (y::real)"
  shows "2 powi (bitlen \<lfloor>y\<rfloor> - 1) \<le> y"
proof -
  let ?n = "\<lfloor>y\<rfloor>"
  have n1: "1 \<le> ?n" using assms by simp
  then have b1: "1 \<le> bitlen ?n"
    using bitlen_eq_zero_iff [of ?n] bitlen_nonneg [of ?n] by linarith
  have "bitlen ?n \<le> bitlen ?n" by simp
  then have "2 ^ (nat (bitlen ?n) - 1) \<le> ?n"
    unfolding bitlen_ge_iff_power [of "bitlen ?n" ?n] using b1 by simp
  then have "real_of_int (2 ^ (nat (bitlen ?n) - 1)) \<le> real_of_int ?n"
    by (rule of_int_le_iff [THEN iffD2])
  moreover have "real_of_int ?n \<le> y" by simp
  moreover have "real_of_int (2 ^ (nat (bitlen ?n) - 1)) = 2 ^ (nat (bitlen ?n) - 1)"
    by simp
  ultimately have "2 ^ (nat (bitlen ?n) - 1) \<le> y" by linarith
  moreover have "(2::real) ^ (nat (bitlen ?n) - 1) = 2 powi (bitlen ?n - 1)"
    using b1 by (simp add: power_int_nonneg_exp nat_diff_distrib)
  ultimately show ?thesis by simp
qed

lemma expo_upper: "\<bar>x\<bar> < 2 powi (expo x + 1)"
proof -
  define c :: real where "c = 2 ^ 1074"
  have c: "c = 2 powi 1074" by (simp add: c_def)
  have cpos: "0 < c" by (simp add: c_def)
  have "\<bar>x\<bar> * c < 2 powi (bitlen \<lfloor>\<bar>x\<bar> * c\<rfloor>)"
    using cpos by (intro floor_bitlen_upper) simp
  then have "\<bar>x\<bar> < 2 powi (bitlen \<lfloor>\<bar>x\<bar> * c\<rfloor>) / c"
    using cpos by (simp add: pos_less_divide_eq)
  also have "\<dots> = 2 powi (bitlen \<lfloor>\<bar>x\<bar> * c\<rfloor> - 1074)"
    unfolding c using power_int_diff [of "2::real" "bitlen \<lfloor>\<bar>x\<bar> * 2 powi 1074\<rfloor>" 1074]
    by simp
  finally have "\<bar>x\<bar> < 2 powi (bitlen \<lfloor>\<bar>x\<bar> * c\<rfloor> - 1074)" .
  moreover have "expo x + 1 = bitlen \<lfloor>\<bar>x\<bar> * c\<rfloor> - 1074"
    unfolding expo_def c_def by linarith
  ultimately show ?thesis by (simp only:)
qed

lemma expo_lower:
  assumes "2 powi (- 1074) \<le> \<bar>x\<bar>"
  shows "2 powi (expo x) \<le> \<bar>x\<bar>"
proof -
  define c :: real where "c = 2 ^ 1074"
  have c: "c = 2 powi 1074" by (simp add: c_def)
  have cpos: "0 < c" by (simp add: c_def)
  have "2 powi (- 1074) * c = (1::real)"
    unfolding c using power_int_add [of "2::real" "- 1074" 1074] by simp
  moreover have "2 powi (- 1074) * c \<le> \<bar>x\<bar> * c"
    using assms cpos by (simp only: mult_le_cancel_right_pos)
  ultimately have "1 \<le> \<bar>x\<bar> * c" by simp
  then have "2 powi (bitlen \<lfloor>\<bar>x\<bar> * c\<rfloor> - 1) \<le> \<bar>x\<bar> * c"
    by (rule floor_bitlen_lower)
  then have "2 powi (bitlen \<lfloor>\<bar>x\<bar> * c\<rfloor> - 1) / c \<le> \<bar>x\<bar>"
    using cpos by (simp add: pos_divide_le_eq)
  moreover have "2 powi (bitlen \<lfloor>\<bar>x\<bar> * c\<rfloor> - 1) / c = 2 powi (bitlen \<lfloor>\<bar>x\<bar> * c\<rfloor> - 1 - 1074)"
    unfolding c using power_int_diff [of "2::real" "bitlen \<lfloor>\<bar>x\<bar> * 2 powi 1074\<rfloor> - 1" 1074]
    by simp
  ultimately show ?thesis
    unfolding expo_def c_def by simp
qed

lemma expo_eqI:
  assumes "2 powi k \<le> \<bar>x\<bar>" "\<bar>x\<bar> < 2 powi (k + 1)" "- 1074 \<le> k"
  shows "expo x = k"
proof -
  have "(2::real) powi (- 1074) \<le> 2 powi k"
    using assms(3) by (intro power_int_increasing) simp_all
  then have lo: "2 powi (- 1074) \<le> \<bar>x\<bar>" using assms(1) by linarith
  have "(2::real) powi (expo x) < 2 powi (k + 1)"
    using expo_lower [OF lo] assms(2) by linarith
  then have a: "expo x < k + 1"
    using power_int_increasing [of "k + 1" "expo x" "2::real"] by fastforce
  have "(2::real) powi k < 2 powi (expo x + 1)"
    using expo_upper [of x] assms(1) by linarith
  then have b: "k < expo x + 1"
    using power_int_increasing [of "expo x + 1" k "2::real"] by fastforce
  show ?thesis using a b by linarith
qed

lemma round_even_ge: "of_int n \<le> y \<Longrightarrow> n \<le> round_even y"
  using round_even_mono [of "of_int n" y] by (simp add: round_even_of_int)

lemma round_even_le: "y \<le> of_int n \<Longrightarrow> round_even y \<le> n"
  using round_even_mono [of y "of_int n"] by (simp add: round_even_of_int)

lemma pow2_add: "(2::real) powi (a + b) = 2 powi a * 2 powi b"
  by (rule power_int_add) simp

lemma pow2_nat: "0 \<le> a \<Longrightarrow> (2::real) powi a = of_int (2 ^ nat a)"
  by (simp add: power_int_nonneg_exp)

lemma scaled_ge:
  fixes a r p t :: real
  assumes "a \<le> r" "0 < p" "a * p = t"
  shows "t \<le> r * p"
  using assms mult_right_mono [of a r p] by auto

lemma scaled_le:
  fixes a r p t :: real
  assumes "r \<le> a" "0 < p" "a * p = t"
  shows "r * p \<le> t"
  using assms mult_right_mono [of r a p] by auto

lemma expo_mono:
  assumes "\<bar>x\<bar> \<le> \<bar>y\<bar>"
  shows "expo x \<le> expo y"
proof -
  have "\<lfloor>\<bar>x\<bar> * 2 ^ 1074\<rfloor> \<le> \<lfloor>\<bar>y\<bar> * 2 ^ 1074\<rfloor>"
    using assms by (intro floor_mono) simp
  then have "bitlen \<lfloor>\<bar>x\<bar> * 2 ^ 1074\<rfloor> \<le> bitlen \<lfloor>\<bar>y\<bar> * 2 ^ 1074\<rfloor>"
    unfolding bitlen_def by (intro of_nat_mono floorlog_mono) simp
  then show ?thesis unfolding expo_def by linarith
qed

lemma expo_small:
  assumes "\<bar>x\<bar> < 2 powi (- 1074)"
  shows "expo x = - 1075"
proof -
  define c :: real where "c = 2 ^ 1074"
  have c: "c = 2 powi 1074" by (simp add: c_def)
  have cpos: "0 < c" by (simp add: c_def)
  have "2 powi (- 1074) * c = (1::real)"
    unfolding c using power_int_add [of "2::real" "- 1074" 1074] by simp
  moreover have "\<bar>x\<bar> * c < 2 powi (- 1074) * c"
    using assms cpos by (simp only: mult_less_cancel_right_pos)
  ultimately have "\<bar>x\<bar> * c < 1" by simp
  moreover have "0 \<le> \<bar>x\<bar> * c" using cpos by simp
  ultimately have "\<lfloor>\<bar>x\<bar> * c\<rfloor> = 0" by linarith
  then show ?thesis unfolding expo_def c_def by simp
qed

lemma fl_pos: "0 < x \<Longrightarrow>
  fl x = of_int (round_even (x / 2 powi (max (expo x - 52) (- 1074)))) * 2 powi (max (expo x - 52) (- 1074))"
  by (simp add: fl_def Let_def)

lemma fl_0: "fl 0 = 0"
  by (simp add: fl_def)

lemma fl_minus: "fl (- x) = - fl x"
  by (simp add: fl_def expo_def Let_def)

lemma fl_nonneg:
  assumes "0 \<le> x"
  shows "0 \<le> fl x"
proof (cases "x = 0")
  case True
  then show ?thesis by (simp add: fl_0)
next
  case False
  then have x: "0 < x" using assms by simp
  let ?q = "max (expo x - 52) (- 1074)"
  have "0 \<le> x / 2 powi ?q" using x by simp
  then have "0 \<le> round_even (x / 2 powi ?q)"
    using round_even_ge [of 0 "x / 2 powi ?q"] by simp
  then show ?thesis unfolding fl_pos [OF x] by simp
qed

lemma fl_mono_pos:
  assumes "0 < x" "x \<le> y"
  shows "fl x \<le> fl y"
proof -
  have y: "0 < y" using assms by simp
  let ?qx = "max (expo x - 52) (- 1074)"
  let ?qy = "max (expo y - 52) (- 1074)"
  have e: "expo x \<le> expo y" using assms by (intro expo_mono) simp
  then have q: "?qx \<le> ?qy" by simp
  show ?thesis
  proof (cases "?qx = ?qy")
    case True
    have "x / 2 powi ?qy \<le> y / 2 powi ?qy"
      using assms(2) by (simp add: divide_right_mono)
    then have "round_even (x / 2 powi ?qy) \<le> round_even (y / 2 powi ?qy)"
      by (rule round_even_mono)
    then have "of_int (round_even (x / 2 powi ?qy)) * 2 powi ?qy
        \<le> of_int (round_even (y / 2 powi ?qy)) * (2::real) powi ?qy"
      by (simp add: mult_right_mono)
    then show ?thesis
      unfolding fl_pos [OF assms(1)] fl_pos [OF y] True .
  next
    case False
    then have lt: "?qx < ?qy" using q by linarith
    then have qy: "?qy = expo y - 52" and ey: "- 1022 < expo y" and exy: "expo x < expo y"
      by linarith+
    have "\<not> \<bar>y\<bar> < 2 powi (- 1074)"
      using expo_small [of y] ey by auto
    then have ylo: "2 powi (expo y) \<le> y"
      using expo_lower [of y] y by simp
    have "2 powi (expo y) = (2::real) powi 52 * 2 powi (expo y - 52)"
      using pow2_add [of 52 "expo y - 52"] by simp
    then have "(2::real) powi 52 \<le> y / 2 powi (expo y - 52)"
      using ylo by (simp add: pos_le_divide_eq)
    then have "real_of_int (2 ^ 52) \<le> y / 2 powi (expo y - 52)"
      by simp
    then have "2 ^ 52 \<le> round_even (y / 2 powi (expo y - 52))"
      by (rule round_even_ge)
    then have "real_of_int (2 ^ 52) \<le> of_int (round_even (y / 2 powi (expo y - 52)))"
      by (rule of_int_le_iff [THEN iffD2])
    moreover have "real_of_int (2 ^ 52) * 2 powi (expo y - 52) = 2 powi (expo y)"
      using pow2_add [of 52 "expo y - 52"] by simp
    ultimately have "(2::real) powi (expo y)
        \<le> of_int (round_even (y / 2 powi (expo y - 52))) * 2 powi (expo y - 52)"
      by (intro scaled_ge [of "real_of_int (2 ^ 52)"]) simp_all
    then have hi: "2 powi (expo y) \<le> fl y"
      unfolding fl_pos [OF y] qy .
    define d where "d = expo y - ?qx"
    have d0: "0 \<le> d" using lt qy by (simp add: d_def)
    have "x < 2 powi (expo x + 1)" using expo_upper [of x] assms(1) by simp
    also have "\<dots> \<le> 2 powi (expo y)"
      using exy by (intro power_int_increasing) simp_all
    finally have xlt: "x < 2 powi (expo y)" .
    have split: "(2::real) powi (expo y) = 2 powi d * 2 powi ?qx"
      using pow2_add [of d ?qx] by (simp add: d_def)
    then have "x / 2 powi ?qx \<le> 2 powi d"
      using xlt by (simp add: pos_divide_le_eq)
    then have "x / 2 powi ?qx \<le> real_of_int (2 ^ nat d)"
      using pow2_nat [OF d0] by simp
    then have "round_even (x / 2 powi ?qx) \<le> 2 ^ nat d"
      by (rule round_even_le)
    then have "real_of_int (round_even (x / 2 powi ?qx)) \<le> real_of_int (2 ^ nat d)"
      by (rule of_int_le_iff [THEN iffD2])
    moreover have "real_of_int (2 ^ nat d) * 2 powi ?qx = 2 powi (expo y)"
      using split pow2_nat [OF d0] by simp
    ultimately have "real_of_int (round_even (x / 2 powi ?qx)) * 2 powi ?qx \<le> (2::real) powi (expo y)"
      by (intro scaled_le [of _ "real_of_int (2 ^ nat d)"]) simp_all
    then have "fl x \<le> 2 powi (expo y)"
      unfolding fl_pos [OF assms(1)] .
    then show ?thesis using hi by linarith
  qed
qed

lemma fl_mono:
  assumes "x \<le> y"
  shows "fl x \<le> fl y"
proof -
  consider "0 < x" | "x \<le> 0" "0 \<le> y" | "y < 0" by linarith
  then show ?thesis
  proof cases
    case 1
    then show ?thesis using assms by (rule fl_mono_pos)
  next
    case 2
    have "0 \<le> fl (- x)" using 2(1) by (intro fl_nonneg) simp
    then have "fl x \<le> 0" by (simp add: fl_minus)
    moreover have "0 \<le> fl y" using 2(2) by (rule fl_nonneg)
    ultimately show ?thesis by linarith
  next
    case 3
    have "fl (- y) \<le> fl (- x)"
      using 3 assms by (intro fl_mono_pos) simp_all
    then show ?thesis by (simp add: fl_minus)
  qed
qed

lemma fl_normal:
  assumes "2 powi k \<le> \<bar>x\<bar>" "\<bar>x\<bar> < 2 powi (k + 1)" "- 1022 \<le> k"
  shows "fl x = sgn x * of_int (round_even (\<bar>x\<bar> / 2 powi (k - 52))) * 2 powi (k - 52)"
proof -
  have "expo x = k"
    using assms by (intro expo_eqI) simp_all
  moreover have "max (k - 52) (- 1074) = k - 52"
    using assms(3) by simp
  ultimately show ?thesis by (simp add: fl_def Let_def)
qed

lemma fl_representable_pos:
  assumes "0 < m" "m < 2 ^ 53" "- 1074 \<le> q"
  shows "fl (of_int m * 2 powi q) = of_int m * 2 powi q"
proof -
  let ?x = "real_of_int m * 2 powi q"
  let ?b = "bitlen m"
  have x: "0 < ?x" using assms(1) by simp
  have b1: "1 \<le> ?b"
    using assms(1) bitlen_eq_zero_iff [of m] bitlen_nonneg [of m] by linarith
  have b53: "?b \<le> 53"
    using assms(2) by (simp add: bitlen_le_iff_power)
  have lo: "2 ^ nat (?b - 1) \<le> m" and hi: "m < 2 ^ nat ?b"
    using bitlen_bounds [OF assms(1)] by simp_all
  have "real_of_int (2 ^ nat (?b - 1)) \<le> real_of_int m"
    using lo by (rule of_int_le_iff [THEN iffD2])
  then have "2 powi (?b - 1) \<le> real_of_int m"
    using pow2_nat [of "?b - 1"] b1 by simp
  then have "2 powi (?b - 1) * 2 powi q \<le> ?x"
    by (simp add: mult_right_mono)
  then have klo: "2 powi (?b - 1 + q) \<le> \<bar>?x\<bar>"
    using x by (simp add: pow2_add)
  have "real_of_int m < real_of_int (2 ^ nat ?b)"
    using hi by (rule of_int_less_iff [THEN iffD2])
  then have "real_of_int m < 2 powi ?b"
    using pow2_nat [of ?b] b1 by simp
  then have "?x < 2 powi ?b * 2 powi q"
    by (simp add: mult_strict_right_mono)
  then have khi: "\<bar>?x\<bar> < 2 powi (?b - 1 + q + 1)"
    using x pow2_add [of ?b q] by (simp add: add.commute)
  have e: "expo ?x = ?b - 1 + q"
    using klo khi assms(3) b1 by (intro expo_eqI) simp_all
  define Q where "Q = max (expo ?x - 52) (- 1074)"
  define d where "d = q - Q"
  have d0: "0 \<le> d"
    using b53 assms(3) by (simp add: d_def Q_def e)
  have "(2::real) powi q = 2 powi d * 2 powi Q"
    using pow2_add [of d Q] by (simp add: d_def)
  then have "?x / 2 powi Q = real_of_int m * 2 powi d"
    by simp
  also have "\<dots> = real_of_int (m * 2 ^ nat d)"
    using pow2_nat [OF d0] by simp
  finally have "round_even (?x / 2 powi Q) = m * 2 ^ nat d"
    by (simp only: round_even_of_int)
  then have "fl ?x = real_of_int (m * 2 ^ nat d) * 2 powi Q"
    unfolding fl_pos [OF x] Q_def by simp
  also have "\<dots> = real_of_int m * (2 powi d * 2 powi Q)"
    using pow2_nat [OF d0] by simp
  also have "\<dots> = ?x"
    using pow2_add [of d Q] by (simp add: d_def)
  finally show ?thesis .
qed

lemma fl_representable:
  assumes "\<bar>m\<bar> < 2 ^ 53" "- 1074 \<le> q"
  shows "fl (of_int m * 2 powi q) = of_int m * 2 powi q"
proof -
  consider "m = 0" | "0 < m" | "m < 0" by linarith
  then show ?thesis
  proof cases
    case 1
    then show ?thesis by (simp add: fl_0)
  next
    case 2
    then show ?thesis using assms by (intro fl_representable_pos) simp_all
  next
    case 3
    then have "fl (of_int (- m) * 2 powi q) = of_int (- m) * 2 powi q"
      using assms by (intro fl_representable_pos) simp_all
    then show ?thesis using fl_minus [of "of_int m * 2 powi q"] by simp
  qed
qed

lemma fl_numeral: "(numeral w :: int) < 2 ^ 53 \<Longrightarrow> fl (numeral w) = numeral w"
  using fl_representable [of "numeral w" 0] by simp

lemma fl_1: "fl 1 = 1"
  using fl_representable [of 1 0] by simp

lemma fl_half: "fl (1 / 2) = 1 / 2"
  using fl_representable [of 1 "- 1"] by simp

lemmas fl_values = fl_0 fl_1 fl_half fl_numeral

lemmas arith64_defs = add64_def sub64_def mul64_def div64_def

section \<open>Basic facts\<close>

lemmas machine_defs =
  fire_def mount_def replay_def click_def commit_def useEffect_setup_def useEffect_cleanup_def
  requestAnimationFrame_def cancelAnimationFrame_def step_def scene_at_def handleReplay_def
  initial_def clamp_def Let_def

lemma length_SCENES: "length SCENES = 5"
  by (simp add: SCENES_def)

lemma clamp_bounds: "0 \<le> clamp v 0 1 \<and> clamp v 0 1 \<le> 1"
  by (simp add: clamp_def)

lemma clamp_mono: "v \<le> w \<Longrightarrow> clamp v 0 1 \<le> clamp w 0 1"
  by (simp add: clamp_def min_def max_def)

lemma duration_pos: "i < length SCENES \<Longrightarrow> 0 < duration (SCENES ! i)"
proof -
  assume "i < length SCENES"
  then have "i = 0 \<or> i = 1 \<or> i = 2 \<or> i = 3 \<or> i = 4"
    by (simp add: length_SCENES) arith
  then show ?thesis
    by (auto simp add: SCENES_def)
qed

lemma st_useEffect_setup: "st (useEffect_setup now m) = st m"
  by (simp add: useEffect_setup_def requestAnimationFrame_def Let_def)

lemma st_useEffect_cleanup: "st (useEffect_cleanup m) = st m"
  by (simp add: useEffect_cleanup_def cancelAnimationFrame_def)

lemma st_commit: "st (commit s' now m) = s'"
  by (simp add: commit_def st_useEffect_setup st_useEffect_cleanup)

section \<open>What one event does to a well-formed machine\<close>

lemma wf_mount: "wf_machine (mount now)"
  by (simp add: wf_machine_def mount_def useEffect_setup_def requestAnimationFrame_def
      initial_def Let_def length_SCENES)

lemma fire_not_pending: "map_of (frames m) h = None \<Longrightarrow> fire h timestamp now m = m"
  by (simp add: fire_def)

lemma fire_complete_state:
  assumes "wf_machine m" "isComplete (st m)"
  shows "fire h timestamp now m = m"
  using assms by (simp add: wf_machine_def fire_def)

lemma fire_other_handle:
  assumes "wf_machine m" "h \<noteq> animationFrame m"
  shows "fire h timestamp now m = m"
  using assms by (cases "isComplete (st m)") (auto simp add: wf_machine_def fire_def)

lemma fire_again:
  assumes "wf_machine m" "\<not> isComplete (st m)" "progress_at m timestamp < 1"
  shows "fire (animationFrame m) timestamp now m =
           m\<lparr>st := (st m)\<lparr>sceneProgress := progress_at m timestamp\<rparr>,
             animationFrame := nextHandle m,
             frames := [(nextHandle m, live m)],
             nextHandle := nextHandle m + 1\<rparr>"
  using assms
  by (simp add: wf_machine_def fire_def step_def scene_at_def progress_at_def Let_def
      cancelAnimationFrame_def requestAnimationFrame_def commit_def)

lemma fire_last:
  assumes "wf_machine m" "\<not> isComplete (st m)" "\<not> progress_at m timestamp < 1"
    "sceneIndex (st m) = length SCENES - 1"
  shows "fire (animationFrame m) timestamp now m =
           m\<lparr>st := (st m)\<lparr>sceneProgress := 1, isComplete := True\<rparr>, frames := []\<rparr>"
  using assms
  by (simp add: wf_machine_def fire_def step_def scene_at_def progress_at_def Let_def
      cancelAnimationFrame_def requestAnimationFrame_def commit_def)

lemma fire_advance:
  assumes "wf_machine m" "\<not> isComplete (st m)" "\<not> progress_at m timestamp < 1"
    "sceneIndex (st m) \<noteq> length SCENES - 1"
  shows "fire (animationFrame m) timestamp now m =
           (let e = \<lparr>e_id = effectRuns m,
                       e_deps = (sceneIndex (st m) + 1, runId (st m)),
                       e_scene = scene_at (sceneIndex (st m) + 1),
                       e_sceneIndex = sceneIndex (st m) + 1, e_start = now\<rparr>
            in m\<lparr>st := (st m)\<lparr>sceneProgress := 0, sceneIndex := sceneIndex (st m) + 1\<rparr>,
                 live := e,
                 animationFrame := nextHandle m,
                 frames := [(nextHandle m, e)],
                 nextHandle := nextHandle m + 1,
                 effectRuns := effectRuns m + 1\<rparr>)"
  using assms
  by (simp add: wf_machine_def fire_def step_def scene_at_def progress_at_def Let_def
      cancelAnimationFrame_def requestAnimationFrame_def commit_def useEffect_setup_def
      useEffect_cleanup_def length_SCENES)

lemma replay_eq:
  assumes "e_deps (live m) = (sceneIndex (st m), runId (st m))"
  shows "replay now m =
     (let e = \<lparr>e_id = effectRuns m, e_deps = (0, runId (st m) + 1),
                 e_scene = scene_at 0, e_sceneIndex = 0, e_start = now\<rparr>
      in m\<lparr>st := handleReplay (st m),
           live := e,
           animationFrame := nextHandle m,
           frames := filter (\<lambda>(h', cb). h' \<noteq> animationFrame m) (frames m) @ [(nextHandle m, e)],
           nextHandle := nextHandle m + 1,
           effectRuns := effectRuns m + 1\<rparr>)"
  using assms
  by (simp add: replay_def commit_def handleReplay_def useEffect_setup_def
      useEffect_cleanup_def cancelAnimationFrame_def requestAnimationFrame_def Let_def)

lemma click_cases:
  "click now m = (if isComplete (st m) \<and> render (st m) \<noteq> None then replay now m else m)"
  by (auto simp add: click_def render_def split: option.splits)

section \<open>The invariant holds in every reachable machine\<close>

lemma wf_fire:
  assumes "wf_machine m"
  shows "wf_machine (fire h timestamp now m)"
proof (cases "isComplete (st m) \<or> h \<noteq> animationFrame m")
  case True
  then have "fire h timestamp now m = m"
    using assms fire_complete_state fire_other_handle by blast
  then show ?thesis using assms by simp
next
  case False
  then have h: "h = animationFrame m" and nc: "\<not> isComplete (st m)" by auto
  have b: "0 \<le> progress_at m timestamp"
    by (simp add: progress_at_def clamp_bounds)
  show ?thesis
  proof (cases "progress_at m timestamp < 1")
    case True
    show ?thesis
      unfolding h fire_again [OF assms nc True]
      using assms nc True b by (simp add: wf_machine_def)
  next
    case p: False
    show ?thesis
    proof (cases "sceneIndex (st m) = length SCENES - 1")
      case True
      show ?thesis
        unfolding h fire_last [OF assms nc p True]
        using assms nc True by (simp add: wf_machine_def)
    next
      case False
      show ?thesis
        unfolding h fire_advance [OF assms nc p False]
        using assms nc False by (simp add: wf_machine_def Let_def length_SCENES)
    qed
  qed
qed

lemma wf_replay:
  assumes "wf_machine m"
  shows "wf_machine (replay now m)"
proof -
  have d: "e_deps (live m) = (sceneIndex (st m), runId (st m))"
    using assms by (simp add: wf_machine_def)
  show ?thesis
    unfolding replay_eq [OF d] using assms
    by (cases "isComplete (st m)")
      (simp_all add: wf_machine_def Let_def handleReplay_def length_SCENES)
qed

lemma wf_click: "wf_machine m \<Longrightarrow> wf_machine (click now m)"
  by (simp add: click_cases wf_replay)

lemma wf_apply_event: "wf_machine m \<Longrightarrow> wf_machine (apply_event ev m)"
  by (cases ev) (simp_all add: wf_fire wf_replay wf_click)

lemma reachable_wf: "reachable m \<Longrightarrow> wf_machine m"
  by (induction rule: reachable.induct) (simp_all add: wf_mount wf_apply_event)

section \<open>Replay\<close>

text \<open>
  C3. From any playback state, the one of the scenario (scene 3 at progress 0.6) and a
  complete one included, \<open>handleReplay\<close> gives scene 0 at progress 0, not complete, with
  the run counter one higher; it is total, takes nothing but the state, and a second call
  changes nothing but the counter. The machine's replay publishes exactly that state.
\<close>

theorem handleReplay_resets:
  "sceneIndex (handleReplay s) = 0 \<and> sceneProgress (handleReplay s) = 0
   \<and> isComplete (handleReplay s) = False \<and> runId (handleReplay s) = runId s + 1
   \<and> handleReplay (handleReplay s) = (handleReplay s)\<lparr>runId := runId s + 2\<rparr>
   \<and> st (replay now m) = handleReplay (st m)
   \<and> handleReplay \<lparr>sceneIndex = 3, sceneProgress = 0.6, runId = g, isComplete = False\<rparr>
       = \<lparr>sceneIndex = 0, sceneProgress = 0, runId = g + 1, isComplete = False\<rparr>
   \<and> handleReplay \<lparr>sceneIndex = 4, sceneProgress = 1, runId = g, isComplete = True\<rparr>
       = \<lparr>sceneIndex = 0, sceneProgress = 0, runId = g + 1, isComplete = False\<rparr>"
  by (simp add: handleReplay_def replay_def st_commit)

section \<open>The clamp\<close>

text \<open>
  C5. For every scene of the list, every start and every timestamp (elapsed time below
  zero or beyond the duration included), \<open>step\<close> returns, the progress it publishes
  first is the clamped fraction, and both that value and the progress of the state it
  leaves are in [0,1].
\<close>

theorem step_progress_clamped:
  assumes "e_scene e = Some scene" "scene \<in> set SCENES"
  shows "\<exists>s' again. step e timestamp s = Some (s', again)
           \<and> 0 \<le> sceneProgress s' \<and> sceneProgress s' \<le> 1
           \<and> 0 \<le> clamp (div64 (sub64 timestamp (e_start e)) (duration scene)) 0 1
           \<and> clamp (div64 (sub64 timestamp (e_start e)) (duration scene)) 0 1 \<le> 1
           \<and> sceneProgress s'
                 \<in> {clamp (div64 (sub64 timestamp (e_start e)) (duration scene)) 0 1, 0, 1}"
  using assms by (auto simp add: step_def Let_def clamp_def)

theorem step_progress_clamped_witness:
  "\<exists>s' again.
      step \<lparr>e_id = 1, e_deps = (0, 0), e_scene = Some (SCENES ! 0), e_sceneIndex = 0,
            e_start = 100\<rparr> 50 initial = Some (s', again)
      \<and> 0 \<le> sceneProgress s' \<and> sceneProgress s' \<le> 1
      \<and> 0 \<le> clamp (div64 (sub64 50 100) (duration (SCENES ! 0))) 0 1
      \<and> clamp (div64 (sub64 50 100) (duration (SCENES ! 0))) 0 1 \<le> 1
      \<and> sceneProgress s' \<in> {clamp (div64 (sub64 50 100) (duration (SCENES ! 0))) 0 1, 0, 1}"
proof -
  have a: "e_scene \<lparr>e_id = 1, e_deps = (0, 0), e_scene = Some (SCENES ! 0), e_sceneIndex = 0,
            e_start = 100\<rparr> = Some (SCENES ! 0)"
    by simp
  have b: "SCENES ! 0 \<in> set SCENES"
    by (simp add: SCENES_def)
  show ?thesis
    using step_progress_clamped [OF a b, of 50 initial] by simp
qed

section \<open>Reachability of runs\<close>

lemma reachable_fire: "reachable m \<Longrightarrow> reachable (fire h timestamp now m)"
  using reachable_event [of m "Frame h timestamp now"] by simp

lemma reachable_replay: "reachable m \<Longrightarrow> reachable (replay now m)"
  using reachable_event [of m "Replay now"] by simp

lemma reachable_run: "reachable m \<Longrightarrow> reachable (run evs m)"
  unfolding run_def
  by (induction evs arbitrary: m) (simp_all add: reachable_event)

lemma scenario_complete: "isComplete (st (run scenario_events (mount 0)))"
  by (simp add: run_def scenario_events_def machine_defs SCENES_def arith64_defs fl_values)

section \<open>Timeline progress\<close>

lemma index_cases:
  assumes "i < length SCENES"
  shows "i = 0 \<or> i = 1 \<or> i = 2 \<or> i = 3 \<or> i = 4"
  using assms by (simp add: length_SCENES) arith

lemma TOTAL_DURATION_value: "TOTAL_DURATION = 34100"
  by (simp add: TOTAL_DURATION_def SCENES_def arith64_defs fl_values)

lemma total_value: "sum_list (map duration SCENES) = 34100"
  by (simp add: SCENES_def)

lemma TOTAL_DURATION_sum: "TOTAL_DURATION = sum_list (map duration SCENES)"
  by (simp add: TOTAL_DURATION_value total_value)

lemma elapsedBeforeScene_sum:
  assumes "sceneIndex s < length SCENES"
  shows "elapsedBeforeScene s = sum_list (map duration (take (sceneIndex s) SCENES))"
  using index_cases [OF assms]
  by (auto simp add: elapsedBeforeScene_def SCENES_def arith64_defs fl_values)

lemma prefix_Suc:
  "i < length xs \<Longrightarrow>
   sum_list (map f (take (Suc i) xs)) = sum_list (map f (take i xs)) + (f (xs ! i) :: real)"
  by (simp add: take_Suc_conv_app_nth)

lemma prefix_nonneg:
  "0 \<le> sum_list (map duration (take i SCENES))"
proof -
  have "\<forall>x \<in> set (take i SCENES). 0 \<le> duration x"
    using duration_pos by (metis in_set_conv_nth in_set_takeD less_eq_real_def)
  then show ?thesis by (intro sum_list_nonneg) auto
qed

lemma prefix_le_total:
  "sum_list (map duration (take i SCENES)) \<le> sum_list (map duration SCENES)"
proof -
  have "sum_list (map duration SCENES)
        = sum_list (map duration (take i SCENES)) + sum_list (map duration (drop i SCENES))"
    by (metis append_take_drop_id map_append sum_list_append)
  moreover have "0 \<le> sum_list (map duration (drop i SCENES))"
  proof -
    have "\<forall>x \<in> set (drop i SCENES). 0 \<le> duration x"
      using duration_pos by (metis in_set_conv_nth in_set_dropD less_eq_real_def)
    then show ?thesis by (intro sum_list_nonneg) auto
  qed
  ultimately show ?thesis by simp
qed

lemma prefix_representable:
  assumes "i < length SCENES"
  shows "fl (sum_list (map duration (take i SCENES))) = sum_list (map duration (take i SCENES))"
    and "fl (sum_list (map duration (take (Suc i) SCENES)))
           = sum_list (map duration (take (Suc i) SCENES))"
    and "fl (duration (SCENES ! i)) = duration (SCENES ! i)"
  using index_cases [OF assms]
  by (auto simp add: SCENES_def fl_values)

lemma timelineProgress_refines:
  "sceneIndex s < length SCENES \<Longrightarrow> timelineProgress s = Some (spec_timeline s)"
  by (simp add: timelineProgress_def spec_timeline_def scene_at_def elapsedBeforeScene_sum
      TOTAL_DURATION_sum)

lemma total_pos: "0 < sum_list (map duration SCENES)"
  by (simp add: SCENES_def)

text \<open>
  The rounded sum of the prefix and the active scene's share lies between the prefix and
  the next prefix, for a progress in [0,1].
\<close>

lemma share_bounds:
  assumes i: "i < length SCENES" and p0: "0 \<le> p" and p1: "p \<le> 1"
  shows "sum_list (map duration (take i SCENES))
           \<le> add64 (sum_list (map duration (take i SCENES))) (mul64 p (duration (SCENES ! i)))"
    and "add64 (sum_list (map duration (take i SCENES))) (mul64 p (duration (SCENES ! i)))
           \<le> sum_list (map duration (take (Suc i) SCENES))"
proof -
  let ?pre = "sum_list (map duration (take i SCENES))"
  let ?d = "duration (SCENES ! i)"
  have d: "0 < ?d" using i by (rule duration_pos)
  have "fl 0 \<le> fl (p * ?d)"
    using d p0 by (intro fl_mono) simp
  then have m0: "0 \<le> mul64 p ?d"
    by (simp add: mul64_def fl_0)
  have "p * ?d \<le> ?d" using d p1 by simp
  then have "fl (p * ?d) \<le> fl ?d" by (rule fl_mono)
  then have m1: "mul64 p ?d \<le> ?d"
    by (simp add: mul64_def prefix_representable(3) [OF i])
  have "fl ?pre \<le> fl (?pre + mul64 p ?d)"
    using m0 by (intro fl_mono) simp
  then show "?pre \<le> add64 ?pre (mul64 p ?d)"
    by (simp add: add64_def prefix_representable(1) [OF i])
  have "?pre + mul64 p ?d \<le> sum_list (map duration (take (Suc i) SCENES))"
    using m1 prefix_Suc [OF i, of duration] by simp
  then have "fl (?pre + mul64 p ?d) \<le> fl (sum_list (map duration (take (Suc i) SCENES)))"
    by (rule fl_mono)
  then show "add64 ?pre (mul64 p ?d) \<le> sum_list (map duration (take (Suc i) SCENES))"
    by (simp add: add64_def prefix_representable(2) [OF i])
qed

lemma div64_total_mono:
  assumes "a \<le> b"
  shows "div64 a (sum_list (map duration SCENES)) \<le> div64 b (sum_list (map duration SCENES))"
  unfolding div64_def using assms total_pos by (intro fl_mono divide_right_mono) simp_all

lemma div64_total_range:
  assumes "0 \<le> a" "a \<le> sum_list (map duration SCENES)"
  shows "0 \<le> div64 a (sum_list (map duration SCENES))"
    and "div64 a (sum_list (map duration SCENES)) \<le> 1"
proof -
  have "fl 0 \<le> fl (a / sum_list (map duration SCENES))"
    using assms(1) total_pos by (intro fl_mono) simp
  then show "0 \<le> div64 a (sum_list (map duration SCENES))"
    by (simp add: div64_def fl_0)
  have "fl (a / sum_list (map duration SCENES)) \<le> fl 1"
    using assms(2) total_pos by (intro fl_mono) simp
  then show "div64 a (sum_list (map duration SCENES)) \<le> 1"
    by (simp add: div64_def fl_1)
qed

lemma spec_timeline_running:
  assumes "sceneIndex s < length SCENES" "0 \<le> sceneProgress s" "sceneProgress s \<le> 1"
    "\<not> isComplete s"
  shows "0 \<le> spec_timeline s \<and> spec_timeline s \<le> 1"
proof -
  let ?i = "sceneIndex s"
  let ?a = "add64 (sum_list (map duration (take ?i SCENES)))
                  (mul64 (sceneProgress s) (duration (SCENES ! ?i)))"
  have "0 \<le> ?a"
    using share_bounds(1) [OF assms(1-3)] prefix_nonneg [of ?i] by linarith
  moreover have "?a \<le> sum_list (map duration SCENES)"
    using share_bounds(2) [OF assms(1-3)] prefix_le_total [of "Suc ?i"] by linarith
  ultimately show ?thesis
    using div64_total_range [of ?a] assms(4) by (simp add: spec_timeline_def)
qed






section \<open>Order of the scenes\<close>

lemma fire_index:
  assumes "wf_machine m"
  shows "sceneIndex (st (fire h timestamp now m)) = sceneIndex (st m)
         \<or> sceneIndex (st (fire h timestamp now m)) = sceneIndex (st m) + 1"
proof (cases "isComplete (st m) \<or> h \<noteq> animationFrame m")
  case True
  then have "fire h timestamp now m = m"
    using assms fire_complete_state fire_other_handle by blast
  then show ?thesis by simp
next
  case False
  then have h: "h = animationFrame m" and nc: "\<not> isComplete (st m)" by auto
  show ?thesis
  proof (cases "progress_at m timestamp < 1")
    case True
    show ?thesis unfolding h fire_again [OF assms nc True] by simp
  next
    case p: False
    show ?thesis
    proof (cases "sceneIndex (st m) = length SCENES - 1")
      case True
      show ?thesis unfolding h fire_last [OF assms nc p True] by simp
    next
      case False
      show ?thesis unfolding h fire_advance [OF assms nc p False] by (simp add: Let_def)
    qed
  qed
qed

lemma indices_Cons:
  "indices (ev # evs) m = sceneIndex (st m) # indices evs (apply_event ev m)"
  by (simp add: indices_def)

lemma indices_hd: "hd (indices evs m) = sceneIndex (st m)"
  by (simp add: indices_def)

lemma indices_not_Nil: "indices evs m \<noteq> []"
  by (simp add: indices_def)

lemma indices_successively:
  assumes "wf_machine m" "\<forall>ev \<in> set evs. is_Frame ev"
  shows "successively (\<lambda>a b. b = a \<or> b = a + 1) (indices evs m)"
  using assms
proof (induction evs arbitrary: m)
  case Nil
  then show ?case by (simp add: indices_def)
next
  case (Cons ev evs)
  from Cons.prems(2) obtain h timestamp now where ev: "ev = Frame h timestamp now"
    by (cases ev) auto
  have wf': "wf_machine (apply_event ev m)"
    using Cons.prems(1) by (rule wf_apply_event)
  have "successively (\<lambda>a b. b = a \<or> b = a + 1) (indices evs (apply_event ev m))"
    using Cons.IH [OF wf'] Cons.prems(2) by simp
  moreover have "sceneIndex (st (apply_event ev m)) = sceneIndex (st m)
      \<or> sceneIndex (st (apply_event ev m)) = sceneIndex (st m) + 1"
    using fire_index [OF Cons.prems(1)] by (simp add: ev)
  ultimately show ?case
    by (simp add: indices_Cons successively_Cons indices_hd)
qed

lemma indices_in_range:
  assumes "wf_machine m"
  shows "\<forall>i \<in> set (indices evs m). i < length SCENES"
  using assms
proof (induction evs arbitrary: m)
  case Nil
  then show ?case by (simp add: indices_def wf_machine_def)
next
  case (Cons ev evs)
  have "wf_machine (apply_event ev m)"
    using Cons.prems by (rule wf_apply_event)
  then have "\<forall>i \<in> set (indices evs (apply_event ev m)). i < length SCENES"
    by (rule Cons.IH)
  then show ?case using Cons.prems by (simp add: indices_Cons wf_machine_def)
qed

lemma successively_step_sorted:
  "successively (\<lambda>a b. b = a \<or> b = a + 1) (xs :: nat list) \<Longrightarrow> sorted xs"
proof -
  assume "successively (\<lambda>a b. b = a \<or> b = a + 1) xs"
  then have "successively (\<le>) xs"
    by (rule successively_mono) auto
  then show "sorted xs"
    by (simp add: successively_conv_sorted_wrt)
qed

lemma sorted_no_revisit:
  assumes "sorted (xs :: nat list)" "i < j" "j < k" "k < length xs" "xs ! j \<noteq> xs ! i"
  shows "xs ! k \<noteq> xs ! i"
proof -
  have "xs ! i \<le> xs ! j" using assms by (simp add: sorted_nth_mono)
  moreover have "xs ! j \<le> xs ! k" using assms by (simp add: sorted_nth_mono)
  ultimately show ?thesis using assms(5) by linarith
qed

text \<open>
  C1. Over any run of repaint callbacks from a reachable machine, whatever their
  timestamps, each callback leaves the active scene index as it is or adds exactly one to
  it; so the indices never decrease, an index that has been left is never taken again,
  and every index is one of the list. Only the replay action goes back: it sets the
  index to 0.
\<close>

theorem scene_order:
  assumes "reachable m" "\<forall>ev \<in> set evs. is_Frame ev"
  shows "successively (\<lambda>a b. b = a \<or> b = a + 1) (indices evs m)
         \<and> sorted (indices evs m)
         \<and> (\<forall>i j k. i < j \<and> j < k \<and> k < length (indices evs m)
                \<and> indices evs m ! j \<noteq> indices evs m ! i
              \<longrightarrow> indices evs m ! k \<noteq> indices evs m ! i)
         \<and> (\<forall>i \<in> set (indices evs m). i < length SCENES)
         \<and> sceneIndex (st (replay now m)) = 0"
proof -
  have wf: "wf_machine m" using assms(1) by (rule reachable_wf)
  have s: "successively (\<lambda>a b. b = a \<or> b = a + 1) (indices evs m)"
    using wf assms(2) by (rule indices_successively)
  then have so: "sorted (indices evs m)" by (rule successively_step_sorted)
  have "sceneIndex (st (replay now m)) = 0"
    by (simp add: replay_def st_commit handleReplay_def)
  then show ?thesis
    using s so sorted_no_revisit [OF so] indices_in_range [OF wf, of evs] by blast
qed

theorem scene_order_witness:
  "indices [Frame 1 3250 0, Frame 2 6500 6501, Frame 3 10101 0] (mount 0) = [0, 0, 1, 1]
   \<and> successively (\<lambda>a b. b = a \<or> b = a + 1)
        (indices [Frame 1 3250 0, Frame 2 6500 6501, Frame 3 10101 0] (mount 0))
   \<and> sorted (indices [Frame 1 3250 0, Frame 2 6500 6501, Frame 3 10101 0] (mount 0))"
proof -
  have f: "\<forall>ev \<in> set [Frame 1 3250 0, Frame 2 6500 6501, Frame 3 10101 0]. is_Frame ev"
    by simp
  have "indices [Frame 1 3250 0, Frame 2 6500 6501, Frame 3 10101 0] (mount 0) = [0, 0, 1, 1]"
    by (simp add: indices_def machine_defs SCENES_def arith64_defs fl_values)
  then show ?thesis
    using scene_order [OF reachable_mount f, of 0 0] by simp
qed

section \<open>The complete state\<close>

lemma trace_complete:
  assumes "wf_machine m" "isComplete (st m)" "\<forall>ev \<in> set evs. is_Frame ev"
  shows "\<forall>m' \<in> set (trace evs m). m' = m"
  using assms
proof (induction evs)
  case Nil
  then show ?case by simp
next
  case (Cons ev evs)
  from Cons.prems(3) obtain h timestamp now where ev: "ev = Frame h timestamp now"
    by (cases ev) auto
  have "apply_event ev m = m"
    using Cons.prems(1,2) by (simp add: ev fire_complete_state)
  then show ?case using Cons by simp
qed

lemma step_complete_no_request:
  "step e timestamp s = Some (s', again) \<Longrightarrow> \<not> isComplete s \<Longrightarrow> isComplete s' \<Longrightarrow> \<not> again"
  by (auto simp add: step_def Let_def split: option.splits if_splits)

text \<open>
  C7. In a reachable machine whose run is complete no callback is pending, the state sits
  on the last scene at progress 1, and no repaint callback, whatever its handle and
  timestamp, changes anything of the machine. The callback that completes the run ends
  in \<open>return\<close>, not in a new request.
\<close>

theorem complete_is_final:
  assumes "reachable m" "isComplete (st m)" "\<forall>ev \<in> set evs. is_Frame ev"
  shows "frames m = []
         \<and> sceneIndex (st m) = length SCENES - 1 \<and> sceneProgress (st m) = 1
         \<and> (\<forall>m' \<in> set (trace evs m). m' = m)
         \<and> (\<forall>e timestamp s s' again.
               step e timestamp s = Some (s', again) \<and> \<not> isComplete s \<and> isComplete s'
               \<longrightarrow> \<not> again)"
proof -
  have wf: "wf_machine m" using assms(1) by (rule reachable_wf)
  show ?thesis
    using wf assms(2) trace_complete [OF wf assms(2,3)] step_complete_no_request
    by (simp add: wf_machine_def) blast
qed

theorem complete_is_final_witness:
  "isComplete (st (run scenario_events (mount 0)))
   \<and> frames (run scenario_events (mount 0)) = []
   \<and> sceneProgress (st (run scenario_events (mount 0))) = 1
   \<and> trace [Frame 8 40000 40000] (run scenario_events (mount 0))
       = [run scenario_events (mount 0)]"
proof -
  have r: "reachable (run scenario_events (mount 0))"
    using reachable_mount by (rule reachable_run)
  have f: "\<forall>ev \<in> set [Frame 8 40000 40000]. is_Frame ev"
    by simp
  show ?thesis
    using complete_is_final [OF r scenario_complete f] scenario_complete by simp
qed

section \<open>The replay button\<close>

lemma render_total:
  assumes "sceneIndex s < length SCENES"
  shows "\<exists>v. render s = Some v \<and> replayButton v = isComplete s"
  using assms by (simp add: render_def scene_at_def timelineProgress_def)

text \<open>
  C10. In every reachable machine the component renders, and the replay button is in the
  output exactly when \<open>isComplete\<close> holds; so a click where the button would be runs
  the replay in a complete run and does nothing while a run is in progress.
\<close>

theorem replay_button_iff_complete:
  assumes "reachable m"
  shows "(\<exists>v. render (st m) = Some v \<and> (replayButton v \<longleftrightarrow> isComplete (st m)))
         \<and> click now m = (if isComplete (st m) then replay now m else m)"
proof -
  have "sceneIndex (st m) < length SCENES"
    using reachable_wf [OF assms] by (simp add: wf_machine_def)
  then obtain v where "render (st m) = Some v \<and> replayButton v = isComplete (st m)"
    using render_total by blast
  then show ?thesis by (auto simp add: click_def)
qed

theorem replay_button_iff_complete_witness:
  "(\<exists>v. render (st (mount 0)) = Some v \<and> (replayButton v \<longleftrightarrow> isComplete (st (mount 0))))
   \<and> \<not> isComplete (st (mount 0))
   \<and> click 5 (mount 0) = mount 0"
proof -
  have "\<not> isComplete (st (mount 0))"
    by (simp add: machine_defs)
  then show ?thesis
    using replay_button_iff_complete [OF reachable_mount, of 0 5] by simp
qed

section \<open>Monotonicity of the timeline progress\<close>

lemma progress_at_mono:
  assumes "sceneIndex (st m) < length SCENES" "t \<le> t'"
  shows "progress_at m t \<le> progress_at m t'"
proof -
  have d: "0 < duration (SCENES ! sceneIndex (st m))"
    using assms(1) by (rule duration_pos)
  have "sub64 t (e_start (live m)) \<le> sub64 t' (e_start (live m))"
    unfolding sub64_def using assms(2) by (intro fl_mono) simp
  then have "sub64 t (e_start (live m)) / duration (SCENES ! sceneIndex (st m))
        \<le> sub64 t' (e_start (live m)) / duration (SCENES ! sceneIndex (st m))"
    using d by (simp add: divide_right_mono)
  then have "div64 (sub64 t (e_start (live m))) (duration (SCENES ! sceneIndex (st m)))
        \<le> div64 (sub64 t' (e_start (live m))) (duration (SCENES ! sceneIndex (st m)))"
    unfolding div64_def by (rule fl_mono)
  then show ?thesis
    unfolding progress_at_def by (rule clamp_mono)
qed

lemma spec_timeline_le_1:
  assumes "wf_machine m"
  shows "spec_timeline (st m) \<le> 1"
proof (cases "isComplete (st m)")
  case True
  then show ?thesis by (simp add: spec_timeline_def)
next
  case False
  then have "0 \<le> spec_timeline (st m) \<and> spec_timeline (st m) \<le> 1"
    using assms by (intro spec_timeline_running) (simp_all add: wf_machine_def)
  then show ?thesis by simp
qed

lemma share_mono:
  assumes "i < length SCENES" "p \<le> p'"
  shows "add64 a (mul64 p (duration (SCENES ! i))) \<le> add64 a (mul64 p' (duration (SCENES ! i)))"
proof -
  have "0 < duration (SCENES ! i)" using assms(1) by (rule duration_pos)
  then have "p * duration (SCENES ! i) \<le> p' * duration (SCENES ! i)"
    using assms(2) by simp
  then have "mul64 p (duration (SCENES ! i)) \<le> mul64 p' (duration (SCENES ! i))"
    unfolding mul64_def by (rule fl_mono)
  then show ?thesis
    unfolding add64_def by (intro fl_mono) simp
qed

lemma spec_timeline_scene_start:
  assumes "i < length SCENES"
  shows "spec_timeline \<lparr>sceneIndex = i, sceneProgress = 0, runId = g, isComplete = False\<rparr>
           = div64 (sum_list (map duration (take i SCENES))) (sum_list (map duration SCENES))"
  by (simp add: spec_timeline_def arith64_defs fl_0 prefix_representable(1) [OF assms])

lemma fire_timeline:
  assumes wf: "wf_machine m" and sync: "in_step m t" and le: "t \<le> timestamp"
  shows "spec_timeline (st m) \<le> spec_timeline (st (fire h timestamp now m))
         \<and> in_step (fire h timestamp now m) timestamp"
proof (cases "isComplete (st m) \<or> h \<noteq> animationFrame m")
  case True
  then have same: "fire h timestamp now m = m"
    using wf fire_complete_state fire_other_handle by blast
  have "in_step m timestamp"
    using sync progress_at_mono [OF _ le, of m] wf
    by (auto simp add: in_step_def wf_machine_def)
  then show ?thesis by (simp add: same)
next
  case False
  then have h: "h = animationFrame m" and nc: "\<not> isComplete (st m)" by auto
  have i: "sceneIndex (st m) < length SCENES" using wf by (simp add: wf_machine_def)
  have p0: "0 \<le> sceneProgress (st m)" and p1: "sceneProgress (st m) \<le> 1"
    using wf by (simp_all add: wf_machine_def)
  have p: "sceneProgress (st m) \<le> progress_at m timestamp"
    using sync nc progress_at_mono [OF i le] by (simp add: in_step_def)
  show ?thesis
  proof (cases "progress_at m timestamp < 1")
    case True
    have "spec_timeline (st m)
          \<le> spec_timeline ((st m)\<lparr>sceneProgress := progress_at m timestamp\<rparr>)"
      using nc share_mono [OF i p] by (simp add: spec_timeline_def div64_total_mono)
    then show ?thesis
      unfolding h fire_again [OF wf nc True]
      by (simp add: in_step_def progress_at_def)
  next
    case big: False
    show ?thesis
    proof (cases "sceneIndex (st m) = length SCENES - 1")
      case True
      show ?thesis
        unfolding h fire_last [OF wf nc big True]
        using spec_timeline_le_1 [OF wf] by (simp add: in_step_def spec_timeline_def)
    next
      case False
      then have i': "Suc (sceneIndex (st m)) < length SCENES"
        using i by simp
      have "spec_timeline (st m)
            \<le> div64 (sum_list (map duration (take (Suc (sceneIndex (st m))) SCENES)))
                     (sum_list (map duration SCENES))"
        using nc share_bounds(2) [OF i p0 p1] by (simp add: spec_timeline_def div64_total_mono)
      also have "\<dots> = spec_timeline
           \<lparr>sceneIndex = Suc (sceneIndex (st m)), sceneProgress = 0, runId = runId (st m),
            isComplete = False\<rparr>"
        by (rule spec_timeline_scene_start [OF i', symmetric])
      also have "\<dots> = spec_timeline
           ((st m)\<lparr>sceneProgress := 0, sceneIndex := sceneIndex (st m) + 1\<rparr>)"
        using nc by (simp add: spec_timeline_def)
      finally have "spec_timeline (st m)
            \<le> spec_timeline ((st m)\<lparr>sceneProgress := 0, sceneIndex := sceneIndex (st m) + 1\<rparr>)" .
      then show ?thesis
        unfolding h fire_advance [OF wf nc big False]
        by (simp add: in_step_def Let_def progress_at_def clamp_bounds)
    qed
  qed
qed

lemma spec_timelines_sorted:
  assumes "wf_machine m" "\<forall>ev \<in> set evs. is_Frame ev" "sorted (t # timestamps evs)"
    "in_step m t"
  shows "sorted (map (\<lambda>m'. spec_timeline (st m')) (m # trace evs m))"
  using assms
proof (induction evs arbitrary: m t)
  case Nil
  then show ?case by simp
next
  case (Cons ev evs)
  from Cons.prems(2) obtain h timestamp now where ev: "ev = Frame h timestamp now"
    by (cases ev) auto
  let ?m' = "fire h timestamp now m"
  have le: "t \<le> timestamp" and so: "sorted (timestamp # timestamps evs)"
    using Cons.prems(3) by (simp_all add: ev)
  have step: "spec_timeline (st m) \<le> spec_timeline (st ?m') \<and> in_step ?m' timestamp"
    using Cons.prems(1,4) le by (rule fire_timeline)
  have wf': "wf_machine ?m'" using Cons.prems(1) by (rule wf_fire)
  have "sorted (map (\<lambda>m'. spec_timeline (st m')) (?m' # trace evs ?m'))"
    using Cons.IH [OF wf' _ so] Cons.prems(2) step by simp
  then show ?case
    using step by (auto simp add: ev)
qed

lemma wf_trace:
  assumes "wf_machine m"
  shows "\<forall>m' \<in> set (trace evs m). wf_machine m'"
  using assms
proof (induction evs arbitrary: m)
  case Nil
  then show ?case by simp
next
  case (Cons ev evs)
  have "wf_machine (apply_event ev m)"
    using Cons.prems by (rule wf_apply_event)
  then show ?case using Cons.IH by simp
qed

lemma timelines_spec:
  assumes "wf_machine m"
  shows "timelines evs m = map Some (map (\<lambda>m'. spec_timeline (st m')) (m # trace evs m))"
proof -
  have "\<forall>m' \<in> set (m # trace evs m). timelineProgress (st m') = Some (spec_timeline (st m'))"
    using assms wf_trace [OF assms, of evs]
    by (auto simp add: wf_machine_def timelineProgress_refines)
  then show ?thesis
    unfolding timelines_def by (simp del: trace.simps)
qed

lemma mount_start: "sceneProgress (st (mount now)) = 0 \<and> spec_timeline (st (mount now)) = 0"
  by (simp add: machine_defs spec_timeline_def arith64_defs fl_0)

lemma replay_start: "sceneProgress (st (replay now m)) = 0 \<and> spec_timeline (st (replay now m)) = 0"
  by (simp add: replay_def st_commit handleReplay_def spec_timeline_def arith64_defs fl_0)

text \<open>
  C6. From the start of a run (the mounted machine, or any reachable machine just
  replayed) the timeline progress is 0, and over any callbacks with non-decreasing
  timestamps (strictly increasing ones in particular) it is defined after every callback
  and never goes down, a scene transition included.
\<close>

theorem timeline_monotone:
  assumes "m = mount now \<or> (\<exists>m0. reachable m0 \<and> m = replay now m0)"
    "\<forall>ev \<in> set evs. is_Frame ev" "sorted (timestamps evs)"
  shows "\<exists>xs. timelines evs m = map Some xs \<and> sorted xs \<and> hd xs = 0"
proof -
  have r: "reachable m"
    using assms(1) reachable_mount reachable_replay by blast
  then have wf: "wf_machine m" by (rule reachable_wf)
  have z: "sceneProgress (st m) = 0 \<and> spec_timeline (st m) = 0"
    using assms(1) mount_start replay_start by blast
  obtain t where t: "sorted (t # timestamps evs)"
  proof (cases "timestamps evs")
    case Nil
    then have "sorted (0 # timestamps evs)" by simp
    then show ?thesis by (rule that)
  next
    case (Cons a as)
    then have "sorted (a # timestamps evs)" using assms(3) by simp
    then show ?thesis by (rule that)
  qed
  have "in_step m t"
    using z by (simp add: in_step_def progress_at_def clamp_bounds)
  then have "sorted (map (\<lambda>m'. spec_timeline (st m')) (m # trace evs m))"
    using wf assms(2) t by (intro spec_timelines_sorted)
  then show ?thesis
    using timelines_spec [OF wf, of evs] z by (intro exI [of _ "map (\<lambda>m'. spec_timeline (st m')) (m # trace evs m)"]) simp
qed

theorem timeline_monotone_witness:
  "timelines [Frame 1 3250 3250, Frame 2 6500 6500, Frame 3 10100 10100] (mount 0)
     = [Some 0, Some (div64 3250 34100), Some (div64 6500 34100), Some (div64 10100 34100)]
   \<and> (\<exists>xs. timelines [Frame 1 3250 3250, Frame 2 6500 6500, Frame 3 10100 10100] (mount 0)
              = map Some xs \<and> sorted xs \<and> hd xs = 0)"
proof -
  have a: "mount 0 = mount 0 \<or> (\<exists>m0. reachable m0 \<and> mount 0 = replay 0 m0)"
    by simp
  have f: "\<forall>ev \<in> set [Frame 1 3250 3250, Frame 2 6500 6500, Frame 3 10100 10100]. is_Frame ev"
    by simp
  have t: "sorted (timestamps [Frame 1 3250 3250, Frame 2 6500 6500, Frame 3 10100 10100])"
    by simp
  have "timelines [Frame 1 3250 3250, Frame 2 6500 6500, Frame 3 10100 10100] (mount 0)
     = [Some 0, Some (div64 3250 34100), Some (div64 6500 34100), Some (div64 10100 34100)]"
    by (simp add: timelines_def timelineProgress_def elapsedBeforeScene_def
        TOTAL_DURATION_value machine_defs SCENES_def arith64_defs fl_values)
  then show ?thesis
    using timeline_monotone [OF a f t] by simp
qed

section \<open>The whole run of the five scenes\<close>

text \<open>
  C9. The list has five scenes with durations 6500, 7200, 6200, 7000 and 7200, which sum
  to 34100. On the simulated clock of \<open>scenario_events\<close>, with callbacks from 0 to
  34100, the active index goes through 0, 1, 2, 3, 4 and the run ends complete with
  timeline progress exactly 1.
\<close>

theorem scenario_full_run:
  "length SCENES = 5
   \<and> map duration SCENES = [6500, 7200, 6200, 7000, 7200]
   \<and> TOTAL_DURATION = 34100
   \<and> timestamps scenario_events = [0, 3250, 6500, 13700, 19900, 26900, 34100]
   \<and> indices scenario_events (mount 0) = [0, 0, 0, 1, 2, 3, 4, 4]
   \<and> isComplete (st (run scenario_events (mount 0)))
   \<and> timelineProgress (st (run scenario_events (mount 0))) = Some 1"
proof -
  have "indices scenario_events (mount 0) = [0, 0, 0, 1, 2, 3, 4, 4]"
    by (simp add: indices_def scenario_events_def machine_defs SCENES_def arith64_defs fl_values)
  moreover have "map duration SCENES = [6500, 7200, 6200, 7000, 7200]"
    by (simp add: SCENES_def)
  moreover have "timestamps scenario_events = [0, 3250, 6500, 13700, 19900, 26900, 34100]"
    by (simp add: scenario_events_def)
  ultimately show ?thesis
    using scenario_complete
    by (simp add: length_SCENES TOTAL_DURATION_value timelineProgress_def)
qed

section \<open>The clock of a new scene\<close>

lemma fl_480: "fl (1 / 480) = 4803839602528529 / 2305843009213693952"
  using fl_normal [of "- 9" "1 / 480"] by (simp add: round_even_def)

text \<open>
  C8, as stated, fails. Mounted at 0, the callback at 6500 ends scene 0; the effect body
  of scene 1 then reads the clock, 6501 say, and that is the scene's start. The next
  repaint comes at 6516: the start is not its timestamp, and the progress it publishes is
  the binary64 value of 15/7200, not 0.
\<close>

theorem start_not_next_timestamp:
  "sceneIndex (st (fire 1 6500 6501 (mount 0))) = 1
   \<and> map_of (frames (fire 1 6500 6501 (mount 0))) 2 = Some (live (fire 1 6500 6501 (mount 0)))
   \<and> e_start (live (fire 1 6500 6501 (mount 0))) = 6501
   \<and> e_start (live (fire 2 6516 6517 (fire 1 6500 6501 (mount 0)))) \<noteq> 6516
   \<and> sceneProgress (st (fire 2 6516 6517 (fire 1 6500 6501 (mount 0))))
       = 4803839602528529 / 2305843009213693952"
  by (simp add: machine_defs SCENES_def arith64_defs fl_values fl_480)

lemma fire_changes_index:
  assumes wf: "wf_machine m"
    and ch: "sceneIndex (st (fire h timestamp now m)) \<noteq> sceneIndex (st m)"
  shows "h = animationFrame m \<and> \<not> isComplete (st m) \<and> \<not> progress_at m timestamp < 1
         \<and> sceneIndex (st m) \<noteq> length SCENES - 1"
proof -
  have 1: "\<not> (isComplete (st m) \<or> h \<noteq> animationFrame m)"
    using wf ch fire_complete_state fire_other_handle by metis
  then have h: "h = animationFrame m" and nc: "\<not> isComplete (st m)" by auto
  have 2: "\<not> progress_at m timestamp < 1"
    using ch fire_again [OF wf nc, of timestamp now] by (auto simp add: h)
  have 3: "sceneIndex (st m) \<noteq> length SCENES - 1"
    using ch fire_last [OF wf nc 2, of now] by (auto simp add: h)
  show ?thesis using h nc 2 3 by simp
qed

text \<open>
  C8, as amended. When a callback makes a scene transition, the next scene starts at
  progress 0 and its start is the clock reading taken when the effect body runs for it,
  after the transition and before the next repaint callback, which is left pending. The
  progress a later callback publishes is its timestamp minus that reading, over the new
  scene's duration, clamped: neither the old start nor the timestamp of the callback that
  made the transition enters it, so no overshoot is carried over. The difference and the
  quotient are those of the program's numbers.
\<close>

theorem transition_restarts_clock:
  assumes "reachable m" "sceneIndex (st (fire h timestamp now m)) \<noteq> sceneIndex (st m)"
  shows "sceneIndex (st (fire h timestamp now m)) = sceneIndex (st m) + 1
         \<and> sceneProgress (st (fire h timestamp now m)) = 0
         \<and> e_start (live (fire h timestamp now m)) = now
         \<and> frames (fire h timestamp now m)
             = [(animationFrame (fire h timestamp now m), live (fire h timestamp now m))]
         \<and> (\<forall>timestamp' now'.
               clamp (div64 (sub64 timestamp' now) (duration (SCENES ! (sceneIndex (st m) + 1))))
                 0 1 < 1
               \<longrightarrow> sceneProgress (st (fire (animationFrame (fire h timestamp now m))
                                           timestamp' now' (fire h timestamp now m)))
                    = clamp (div64 (sub64 timestamp' now)
                               (duration (SCENES ! (sceneIndex (st m) + 1)))) 0 1)"
proof -
  let ?m' = "fire h timestamp now m"
  have wf: "wf_machine m" using assms(1) by (rule reachable_wf)
  have c: "h = animationFrame m \<and> \<not> isComplete (st m) \<and> \<not> progress_at m timestamp < 1
         \<and> sceneIndex (st m) \<noteq> length SCENES - 1"
    using wf assms(2) by (rule fire_changes_index)
  have eq: "?m' = (let e = \<lparr>e_id = effectRuns m,
                       e_deps = (sceneIndex (st m) + 1, runId (st m)),
                       e_scene = scene_at (sceneIndex (st m) + 1),
                       e_sceneIndex = sceneIndex (st m) + 1, e_start = now\<rparr>
            in m\<lparr>st := (st m)\<lparr>sceneProgress := 0, sceneIndex := sceneIndex (st m) + 1\<rparr>,
                 live := e,
                 animationFrame := nextHandle m,
                 frames := [(nextHandle m, e)],
                 nextHandle := nextHandle m + 1,
                 effectRuns := effectRuns m + 1\<rparr>)"
    using c fire_advance [OF wf, of timestamp now] by simp
  have wf': "wf_machine ?m'" using wf by (rule wf_fire)
  have nc': "\<not> isComplete (st ?m')" unfolding eq using c by (simp add: Let_def)
  have pa: "\<And>t'. progress_at ?m' t'
        = clamp (div64 (sub64 t' now) (duration (SCENES ! (sceneIndex (st m) + 1)))) 0 1"
    by (simp add: eq Let_def progress_at_def)
  have next_tick: "\<And>t' now'. progress_at ?m' t' < 1 \<Longrightarrow>
      sceneProgress (st (fire (animationFrame ?m') t' now' ?m')) = progress_at ?m' t'"
    using fire_again [OF wf' nc'] by simp
  have "sceneIndex (st ?m') = sceneIndex (st m) + 1 \<and> sceneProgress (st ?m') = 0
        \<and> e_start (live ?m') = now \<and> frames ?m' = [(animationFrame ?m', live ?m')]"
    by (simp add: eq Let_def)
  then show ?thesis
    using next_tick pa by simp
qed

theorem transition_restarts_clock_witness:
  "sceneIndex (st (fire 1 6500 6501 (mount 0))) \<noteq> sceneIndex (st (mount 0))
   \<and> sceneIndex (st (fire 1 6500 6501 (mount 0))) = 1
   \<and> sceneProgress (st (fire 1 6500 6501 (mount 0))) = 0
   \<and> e_start (live (fire 1 6500 6501 (mount 0))) = 6501"
proof -
  have i: "sceneIndex (st (mount 0)) = 0"
    by (simp add: machine_defs)
  have h: "sceneIndex (st (fire 1 6500 6501 (mount 0))) \<noteq> sceneIndex (st (mount 0))"
    by (simp add: machine_defs SCENES_def arith64_defs fl_values)
  show ?thesis
    using transition_restarts_clock [OF reachable_mount h] h i by simp
qed

section \<open>Callbacks of an earlier run\<close>

lemma pending_is_live:
  assumes "wf_machine m" "map_of (frames m) h = Some e"
  shows "h = animationFrame m \<and> e = live m \<and> \<not> isComplete (st m)"
  using assms
  by (cases "isComplete (st m)") (auto simp add: wf_machine_def split: if_splits)

text \<open>
  C4. Every pending repaint callback belongs to the effect that was set up for the
  current run: the run counter in the dependency array kept with it is the current one.
  A replay adds one to the counter, and the cleanup of the effect keyed on that array
  cancels the pending callback: after the replay its handle is no longer pending, a
  repaint for that handle changes nothing of the machine, and every callback pending then
  belongs to the new run. So a callback of run \<open>g\<close> mutates no state once the run is
  \<open>g + 1\<close>.
\<close>

theorem replay_cancels_pending:
  assumes "reachable m" "map_of (frames m) h = Some e"
  shows "snd (e_deps e) = runId (st m)
         \<and> runId (st (replay now m)) = runId (st m) + 1
         \<and> map_of (frames (replay now m)) h = None
         \<and> fire h timestamp now' (replay now m) = replay now m
         \<and> (\<forall>h' e'. map_of (frames (replay now m)) h' = Some e'
               \<longrightarrow> snd (e_deps e') = runId (st m) + 1)"
proof -
  have wf: "wf_machine m" using assms(1) by (rule reachable_wf)
  have p: "h = animationFrame m \<and> e = live m \<and> \<not> isComplete (st m)"
    using wf assms(2) by (rule pending_is_live)
  have d: "e_deps (live m) = (sceneIndex (st m), runId (st m))"
    and fr: "frames m = [(animationFrame m, live m)]"
    and lt: "animationFrame m < nextHandle m"
    using wf p by (simp_all add: wf_machine_def)
  have g: "snd (e_deps e) = runId (st m)"
    using p d by simp
  have fr': "frames (replay now m)
      = [(nextHandle m, \<lparr>e_id = effectRuns m, e_deps = (0, runId (st m) + 1),
                          e_scene = scene_at 0, e_sceneIndex = 0, e_start = now\<rparr>)]"
    unfolding replay_eq [OF d] by (simp add: Let_def fr)
  have none: "map_of (frames (replay now m)) h = None"
    using p lt by (simp add: fr')
  have "runId (st (replay now m)) = runId (st m) + 1"
    by (simp add: replay_def st_commit handleReplay_def)
  moreover have "fire h timestamp now' (replay now m) = replay now m"
    using none by (rule fire_not_pending)
  moreover have "\<forall>h' e'. map_of (frames (replay now m)) h' = Some e'
               \<longrightarrow> snd (e_deps e') = runId (st m) + 1"
    by (auto simp add: fr' split: if_splits)
  ultimately show ?thesis using g none by simp
qed

theorem replay_cancels_pending_witness:
  "map_of (frames (fire 1 3250 3250 (mount 0))) 2 = Some (live (fire 1 3250 3250 (mount 0)))
   \<and> runId (st (replay 4000 (fire 1 3250 3250 (mount 0)))) = 1
   \<and> map_of (frames (replay 4000 (fire 1 3250 3250 (mount 0)))) 2 = None
   \<and> fire 2 4016 4017 (replay 4000 (fire 1 3250 3250 (mount 0)))
       = replay 4000 (fire 1 3250 3250 (mount 0))"
proof -
  have r: "reachable (fire 1 3250 3250 (mount 0))"
    using reachable_mount by (rule reachable_fire)
  have p: "map_of (frames (fire 1 3250 3250 (mount 0))) 2
             = Some (live (fire 1 3250 3250 (mount 0)))"
    by (simp add: machine_defs SCENES_def arith64_defs fl_values)
  have g: "runId (st (fire 1 3250 3250 (mount 0))) = 0"
    by (simp add: machine_defs SCENES_def arith64_defs fl_values)
  show ?thesis
    using replay_cancels_pending [OF r p, of 4000 4016 4017] p g by simp
qed

end
